theory Spec2Isabelle
  imports Main "HOL-Library.Sublist"
begin

section \<open>Strings and the standard library\<close>

text \<open>
  A Python \<open>str\<close> is a sequence of Unicode code points and a \<open>bytes\<close> a sequence of
  bytes. The keys of the state dict and the paths of files only name things and are
  \<open>string\<close>s. A literal of the program is written \<open>ascii ''...''\<close>: the code points of its
  characters.
\<close>

type_synonym codepoint = nat

type_synonym ustr = "codepoint list"

type_synonym bytes = string

abbreviation ascii :: "string \<Rightarrow> ustr" where
  "ascii s \<equiv> map of_char s"

text \<open>
  What the program takes from the standard library and the Unicode character database
  is a parameter of the model, so that a theorem about the program holds whatever these
  compute:
  \<^item> \<open>sha256_hexdigest\<close> is \<open>hashlib.sha256(content).hexdigest()\<close>;
  \<^item> \<open>utf8_encode\<close> is \<open>str.encode('utf-8')\<close>, which raises (\<open>None\<close>) on a text that has no
    encoding, and \<open>utf8_decode_ignore\<close> is \<open>bytes.decode('utf-8', 'ignore')\<close>;
  \<^item> \<open>lower_ucs4 s i\<close> is the lower case of the code point at position \<open>i\<close> of \<open>s\<close>, one or
    more code points that can depend on the code points around it (capital sigma);
  \<^item> \<open>to_upper_full c\<close> and \<open>to_title_full c\<close> are the upper case and the title case of the
    code point \<open>c\<close>, one or more code points (\<open>SS\<close> and \<open>Ss\<close> for U+00DF);
  \<^item> \<open>is_space\<close> says which code points \<open>str.strip\<close> removes.
\<close>

record pylib =
  sha256_hexdigest :: "bytes \<Rightarrow> ustr"
  utf8_encode :: "ustr \<Rightarrow> bytes option"
  utf8_decode_ignore :: "bytes \<Rightarrow> ustr"
  lower_ucs4 :: "ustr \<Rightarrow> nat \<Rightarrow> ustr"
  to_upper_full :: "codepoint \<Rightarrow> ustr"
  to_title_full :: "codepoint \<Rightarrow> ustr"
  is_space :: "codepoint \<Rightarrow> bool"

text \<open>\<open>str.lower\<close>, \<open>str.upper\<close> and \<open>str.capitalize\<close>: position by position; \<open>capitalize\<close>
  takes the title case of the first code point and the lower case of the others.\<close>

definition lower :: "pylib \<Rightarrow> ustr \<Rightarrow> ustr" where
  "lower L s = concat (map (lower_ucs4 L s) [0..<length s])"

definition upper :: "pylib \<Rightarrow> ustr \<Rightarrow> ustr" where
  "upper L s = concat (map (to_upper_full L) s)"

definition capitalize :: "pylib \<Rightarrow> ustr \<Rightarrow> ustr" where
  "capitalize L s =
     (case s of [] \<Rightarrow> []
      | c # cs \<Rightarrow> to_title_full L c @ concat (map (lower_ucs4 L s) [1..<length s]))"

definition strip :: "pylib \<Rightarrow> ustr \<Rightarrow> ustr" where
  "strip L s = rev (dropWhile (is_space L) (rev (dropWhile (is_space L) s)))"

text \<open>\<open>s.startswith(sub)\<close>, \<open>sub in s\<close> and \<open>s.find(sub)\<close> (-1 when there is no occurrence).\<close>

fun starts_with :: "ustr \<Rightarrow> ustr \<Rightarrow> bool" where
  "starts_with s [] = True"
| "starts_with [] (c # sub) = False"
| "starts_with (d # s) (c # sub) = (d = c \<and> starts_with s sub)"

fun str_contains :: "ustr \<Rightarrow> ustr \<Rightarrow> bool" where
  "str_contains [] sub = (sub = [])"
| "str_contains (d # s) sub = (starts_with (d # s) sub \<or> str_contains s sub)"

fun find_from :: "nat \<Rightarrow> ustr \<Rightarrow> ustr \<Rightarrow> int" where
  "find_from i [] sub = (if sub = [] then int i else - 1)"
| "find_from i (d # s) sub =
     (if starts_with (d # s) sub then int i else find_from (Suc i) s sub)"

definition str_find :: "ustr \<Rightarrow> ustr \<Rightarrow> int" where
  "str_find s sub = find_from 0 s sub"

text \<open>\<open>s[i:j]\<close> for \<open>0 \<le> i\<close>, the only case the program uses.\<close>

definition slice :: "ustr \<Rightarrow> int \<Rightarrow> int \<Rightarrow> ustr" where
  "slice s i j = take (nat (j - i)) (drop (nat i) s)"

fun join :: "ustr \<Rightarrow> ustr list \<Rightarrow> ustr" where
  "join sep [] = []"
| "join sep [x] = x"
| "join sep (x # y # ys) = x @ sep @ join sep (y # ys)"

section \<open>JSON values, dictionaries and the state file\<close>

text \<open>
  The state is a Python dict read from and written to a JSON file. A value of the dict
  is a JSON scalar; Python's \<open>None\<close> is \<open>JNull\<close>. The file system maps a path to the JSON
  object the file holds: \<open>json.dump\<close> followed by \<open>json.load\<close> is taken to give the
  object back. A write that raises is a branch of the functions that call
  \<open>save_state\<close>, and leaves the file as it was.
\<close>

datatype json = JNull | JBool bool | JNum int | JStr ustr

type_synonym dict = "string \<rightharpoonup> json"

type_synonym filesystem = "string \<rightharpoonup> dict"

text \<open>\<open>d.get(key, default)\<close>; \<open>d.get(key)\<close> is \<open>dict_get d key JNull\<close>.\<close>

definition dict_get :: "dict \<Rightarrow> string \<Rightarrow> json \<Rightarrow> json" where
  "dict_get d k dflt = (case d k of None \<Rightarrow> dflt | Some v \<Rightarrow> v)"

definition load_state :: "filesystem \<Rightarrow> string \<Rightarrow> dict" where
  "load_state fs path = (case fs path of None \<Rightarrow> Map.empty | Some st \<Rightarrow> st)"

definition save_state :: "filesystem \<Rightarrow> string \<Rightarrow> dict \<Rightarrow> filesystem" where
  "save_state fs path st = fs(path \<mapsto> st)"

section \<open>Configuration, environment and the variables of \<open>main\<close>\<close>

record config =
  url :: ustr
  check_interval_seconds :: nat
  use_keyword :: bool
  keyword :: ustr
  timeout_seconds :: nat
  user_agent :: ustr
  state_file :: string
  single_run :: bool

text \<open>
  What the outside world does in one cycle: \<open>fetch_url_with_js\<close> returns the rendered
  text (after its wait for a body of more than 100 characters) or raises (\<open>None\<close>),
  \<open>fetch_url\<close> returns the bytes of the response or raises (\<open>None\<close>), and \<open>send_email\<close>
  returns whether the message was delivered. \<open>fetch_url\<close> is called only when the
  rendered fetch has not given a text and its digest.
\<close>

record world =
  js_result :: "ustr option"
  http_result :: "bytes option"
  email_delivered :: bool

text \<open>
  What the disk does in one cycle: whether the \<open>save_state\<close> of the first run (the
  initial snapshot) returns, and whether the \<open>save_state\<close> after a notification returns.
  A \<open>save_state\<close> that does not return raises, and the handler of the cycle takes over.
\<close>

record disk =
  snapshot_write_ok :: bool
  state_write_ok :: bool

definition writable :: disk where
  "writable = \<lparr>snapshot_write_ok = True, state_write_ok = True\<rparr>"

text \<open>The variables of \<open>main\<close> that live across cycles, and the disk.\<close>

record monitor =
  last_hash :: json
  last_keyword_found :: json
  state :: dict
  files :: filesystem

text \<open>What one cycle that reached its decision decided and did; \<open>saved\<close> says that the
  \<open>save_state\<close> after the notification returned.\<close>

record detection =
  content_changed :: bool
  keyword_found :: bool
  reasons :: "ustr list"
  samples :: "ustr list"
  changed :: bool
  email :: "(ustr \<times> ustr) option"
  sent :: bool
  saved :: bool

datatype status = Exited nat | Running

section \<open>The functions of the program\<close>

definition compute_hash :: "pylib \<Rightarrow> bytes \<Rightarrow> ustr" where
  "compute_hash L content = sha256_hexdigest L content"

definition build_message :: "ustr \<Rightarrow> ustr \<Rightarrow> ustr \<Rightarrow> ustr" where
  "build_message u reason sample =
     join (ascii [CHR 0x0A])
       ([ascii ''Hostel site update'', ascii ''URL: '' @ u, ascii ''Reason: '' @ reason]
        @ (if sample \<noteq> [] then [ascii ''Sample: '' @ sample] else []))"

text \<open>The two fetch attempts at the head of a cycle: the lowercased text and the digest
  of the page, or \<open>None\<close> when both attempts raise. The first attempt also fails when the
  rendered text cannot be encoded.\<close>

definition http_attempt :: "pylib \<Rightarrow> world \<Rightarrow> (ustr \<times> ustr) option" where
  "http_attempt L w =
     (case http_result w of
        Some content \<Rightarrow> Some (lower L (utf8_decode_ignore L content), compute_hash L content)
      | None \<Rightarrow> None)"

definition fetch_page :: "pylib \<Rightarrow> world \<Rightarrow> (ustr \<times> ustr) option" where
  "fetch_page L w =
     (case js_result w of
        Some text_content \<Rightarrow>
          (case utf8_encode L text_content of
             Some content \<Rightarrow> Some (lower L text_content, compute_hash L content)
           | None \<Rightarrow> http_attempt L w)
      | None \<Rightarrow> http_attempt L w)"

text \<open>Step 1 of a cycle: the content check. Returns the variables and, unless the
  write of the initial snapshot raised, \<open>content_changed\<close> and the reasons and samples so
  far. When the write raises, the variable and the dict have the new digest already.\<close>

definition change_check ::
  "pylib \<Rightarrow> config \<Rightarrow> disk \<Rightarrow> ustr \<Rightarrow> ustr \<Rightarrow> monitor
     \<Rightarrow> monitor \<times> (bool \<times> ustr list \<times> ustr list) option" where
  "change_check L cfg io text_lower page_hash m =
     (if last_hash m = JNull then
        (let st = (state m)(''last_hash'' \<mapsto> JStr page_hash);
             m1 = m\<lparr>last_hash := JStr page_hash, state := st\<rparr>
         in if snapshot_write_ok io then
              (m1\<lparr>files := save_state (files m) (state_file cfg) st\<rparr>, Some (False, [], []))
            else (m1, None))
      else if JStr page_hash \<noteq> last_hash m then
        (m\<lparr>last_hash := JStr page_hash\<rparr>,
         Some (True, [ascii ''Page content changed''],
               [ascii ''Content preview: '' @ strip L (take 200 text_lower)]))
      else (m, Some (False, [], [])))"

definition search_variations :: "pylib \<Rightarrow> ustr \<Rightarrow> ustr list" where
  "search_variations L kw =
     [kw, upper L kw, capitalize L kw, ascii '' '' @ kw @ ascii '' '',
      ascii ''>'' @ kw @ ascii ''<'', ascii [CHR 0x22] @ kw @ ascii [CHR 0x22],
      ascii [CHR 0x27] @ kw @ ascii [CHR 0x27]]"

text \<open>The \<open>for variation in search_variations\<close> loop: \<open>(found, keyword_used)\<close>.\<close>

fun search_loop :: "pylib \<Rightarrow> ustr \<Rightarrow> ustr list \<Rightarrow> bool \<times> ustr" where
  "search_loop L text_lower [] = (False, [])"
| "search_loop L text_lower (variation # rest) =
     (if str_contains text_lower (lower L variation) then (True, variation)
      else search_loop L text_lower rest)"

definition keyword_reason :: "ustr \<Rightarrow> ustr" where
  "keyword_reason kw =
     ascii ''Keyword '' @ ascii [CHR 0x27] @ kw @ ascii [CHR 0x27] @ ascii '' found on page''"

definition keyword_sample :: "pylib \<Rightarrow> ustr \<Rightarrow> ustr \<Rightarrow> ustr" where
  "keyword_sample L text_lower keyword_used =
     (let idx = str_find text_lower (lower L keyword_used);
          start = max 0 (idx - 60)
      in strip L (slice text_lower start (start + 200)))"

text \<open>Step 2 of a cycle: the keyword check. Returns the variables, \<open>keyword_found\<close>, and
  the reasons and samples it appends.\<close>

definition keyword_check ::
  "pylib \<Rightarrow> config \<Rightarrow> ustr \<Rightarrow> monitor \<Rightarrow> monitor \<times> bool \<times> ustr list \<times> ustr list" where
  "keyword_check L cfg text_lower m =
     (if use_keyword cfg then
        (let kw = lower L (keyword cfg);
             (found, keyword_used) = search_loop L text_lower (search_variations L kw)
         in if found then
              (m\<lparr>last_keyword_found := JBool True\<rparr>, True, [keyword_reason kw],
               [ascii ''Keyword context: '' @ keyword_sample L text_lower keyword_used])
            else (m\<lparr>last_keyword_found := JBool False\<rparr>, False, [], []))
      else (m, False, [], []))"

text \<open>Step 3 of a cycle: the notification and the write of the state. The dict is
  updated before \<open>save_state\<close> is called; when that raises, the file stays as it was.\<close>

definition notify ::
  "config \<Rightarrow> disk \<Rightarrow> world \<Rightarrow> monitor \<Rightarrow> bool \<Rightarrow> bool \<Rightarrow> ustr list \<Rightarrow> ustr list
     \<Rightarrow> monitor \<times> detection" where
  "notify cfg io w m cc kf rs ss =
     (if cc \<or> kf then
        (let reason = join (ascii '' | '') rs;
             sample = join (ascii [CHR 0x0A, CHR 0x0A]) ss;
             body = build_message (url cfg) reason sample;
             subject = ascii ''Hostel site update detected'';
             st = (state m)(''last_hash'' \<mapsto> last_hash m,
                            ''last_keyword_found'' \<mapsto> last_keyword_found m);
             m1 = m\<lparr>state := st\<rparr>
         in (if state_write_ok io then m1\<lparr>files := save_state (files m) (state_file cfg) st\<rparr>
             else m1,
             \<lparr>content_changed = cc, keyword_found = kf, reasons = rs, samples = ss,
              changed = True, email = Some (subject, body), sent = email_delivered w,
              saved = state_write_ok io\<rparr>))
      else
        (m, \<lparr>content_changed = cc, keyword_found = kf, reasons = rs, samples = ss,
             changed = False, email = None, sent = False, saved = False\<rparr>))"

text \<open>One pass through the body of the \<open>while\<close> loop. The result is \<open>None\<close> when an
  exception reached the handler before the decision: both fetches raised, or the write
  of the initial snapshot raised, and the handler skipped the rest of the cycle.\<close>

definition cycle_io ::
  "pylib \<Rightarrow> config \<Rightarrow> disk \<Rightarrow> world \<Rightarrow> monitor \<Rightarrow> monitor \<times> detection option" where
  "cycle_io L cfg io w m =
     (case fetch_page L w of
        None \<Rightarrow> (m, None)
      | Some (text_lower, page_hash) \<Rightarrow>
          (case change_check L cfg io text_lower page_hash m of
             (m1, None) \<Rightarrow> (m1, None)
           | (m1, Some (cc, rs1, ss1)) \<Rightarrow>
               (let (m2, kf, rs2, ss2) = keyword_check L cfg text_lower m1;
                    (m3, d) = notify cfg io w m2 cc kf (rs1 @ rs2) (ss1 @ ss2)
                in (m3, Some d))))"

text \<open>The \<open>while run_once or not single_run\<close> loop over the cycles the world offers. In
  continuous mode the loop does not leave by itself: after the last offered cycle it is
  still \<open>Running\<close>. In single-run mode it breaks after the first cycle and \<open>main\<close>
  returns, which is exit code 0.\<close>

fun run_loop_io ::
  "pylib \<Rightarrow> config \<Rightarrow> monitor \<Rightarrow> (disk \<times> world) list
     \<Rightarrow> status \<times> monitor \<times> detection option list" where
  "run_loop_io L cfg m [] = (Running, m, [])"
| "run_loop_io L cfg m ((io, w) # ws) =
     (let (m', d) = cycle_io L cfg io w m in
        if single_run cfg then (Exited 0, m', [d])
        else (let (s, m'', ds) = run_loop_io L cfg m' ws in (s, m'', d # ds)))"

text \<open>\<open>main\<close>: the configuration file is missing (\<open>None\<close>, exit code 1) or holds the
  configuration; the state is loaded once and the loop runs.\<close>

definition init_monitor :: "config \<Rightarrow> filesystem \<Rightarrow> monitor" where
  "init_monitor cfg fs =
     (let st = load_state fs (state_file cfg) in
        \<lparr>last_hash = dict_get st ''last_hash'' JNull,
         last_keyword_found = dict_get st ''last_keyword_found'' (JBool False),
         state = st, files = fs\<rparr>)"

definition main_io ::
  "pylib \<Rightarrow> config option \<Rightarrow> filesystem \<Rightarrow> (disk \<times> world) list
     \<Rightarrow> status \<times> filesystem \<times> detection option list" where
  "main_io L cfg_file fs ws =
     (case cfg_file of
        None \<Rightarrow> (Exited 1, fs, [])
      | Some cfg \<Rightarrow>
          (let (s, m, ds) = run_loop_io L cfg (init_monitor cfg fs) ws in (s, files m, ds)))"

text \<open>The cycle, the loop and \<open>main\<close> on a disk that takes every write.\<close>

definition cycle ::
  "pylib \<Rightarrow> config \<Rightarrow> world \<Rightarrow> monitor \<Rightarrow> monitor \<times> detection option" where
  "cycle L cfg w m = cycle_io L cfg writable w m"

definition run_loop ::
  "pylib \<Rightarrow> config \<Rightarrow> monitor \<Rightarrow> world list \<Rightarrow> status \<times> monitor \<times> detection option list" where
  "run_loop L cfg m ws = run_loop_io L cfg m (map (Pair writable) ws)"

definition main ::
  "pylib \<Rightarrow> config option \<Rightarrow> filesystem \<Rightarrow> world list
     \<Rightarrow> status \<times> filesystem \<times> detection option list" where
  "main L cfg_file fs ws = main_io L cfg_file fs (map (Pair writable) ws)"

section \<open>The specification's keyword search\<close>

text \<open>The single case-insensitive substring search the specification describes: the
  lowercased keyword is a contiguous part of the lowercased text.\<close>

definition case_insensitive_search :: "pylib \<Rightarrow> ustr \<Rightarrow> ustr \<Rightarrow> bool" where
  "case_insensitive_search L K page_text = sublist (lower L K) (lower L page_text)"

text \<open>What the Unicode character database says of the ASCII code points: the letters
  A-Z and a-z map to each other, one code point to one, whatever surrounds them, and the
  other ASCII code points map to themselves.\<close>

definition ascii_lower :: "codepoint \<Rightarrow> codepoint" where
  "ascii_lower c = (if 65 \<le> c \<and> c \<le> 90 then c + 32 else c)"

definition ascii_upper :: "codepoint \<Rightarrow> codepoint" where
  "ascii_upper c = (if 97 \<le> c \<and> c \<le> 122 then c - 32 else c)"

definition ascii_only :: "ustr \<Rightarrow> bool" where
  "ascii_only s = list_all (\<lambda>c. c < 128) s"

definition ascii_cased :: "pylib \<Rightarrow> bool" where
  "ascii_cased L =
     ((\<forall>s i. i < length s \<and> s ! i < 128 \<longrightarrow> lower_ucs4 L s i = [ascii_lower (s ! i)])
      \<and> (\<forall>c. c < 128 \<longrightarrow> to_upper_full L c = [ascii_upper c])
      \<and> (\<forall>c. c < 128 \<longrightarrow> to_title_full L c = [ascii_upper c]))"

section \<open>Concrete inputs\<close>

text \<open>
  A library to evaluate the program on concrete inputs. It agrees with Python's on what
  the inputs below use: texts of ASCII code points and U+00DF, and responses of ASCII
  bytes. In place of SHA-256 the digest of a content is the content itself, so equal
  contents have equal digests and distinct contents distinct ones.
\<close>

definition demo_utf8 :: "codepoint \<Rightarrow> nat list" where
  "demo_utf8 c =
     (if c < 128 then [c]
      else if c < 2048 then [192 + c div 64, 128 + c mod 64]
      else if c < 65536 then [224 + c div 4096, 128 + c div 64 mod 64, 128 + c mod 64]
      else [240 + c div 262144, 128 + c div 4096 mod 64, 128 + c div 64 mod 64,
            128 + c mod 64])"

definition demo_lib :: pylib where
  "demo_lib =
     \<lparr>sha256_hexdigest = (\<lambda>content. map of_char content),
      utf8_encode =
        (\<lambda>s. if list_all (\<lambda>c. c < 55296 \<or> (57343 < c \<and> c < 1114112)) s
              then Some (map char_of (concat (map demo_utf8 s))) else None),
      utf8_decode_ignore =
        (\<lambda>content. map of_char (filter (\<lambda>b. (of_char b :: nat) < 128) content)),
      lower_ucs4 = (\<lambda>s i. [ascii_lower (s ! i)]),
      to_upper_full = (\<lambda>c. if c = 223 then ascii ''SS'' else [ascii_upper c]),
      to_title_full = (\<lambda>c. if c = 223 then ascii ''Ss'' else [ascii_upper c]),
      is_space = (\<lambda>c. (9 \<le> c \<and> c \<le> 13) \<or> (28 \<le> c \<and> c \<le> 32))\<rparr>"

definition cfg_keyword :: config where
  "cfg_keyword =
     \<lparr>url = ascii ''https://hostel.example/rooms'', check_interval_seconds = 300,
      use_keyword = True, keyword = ascii ''Vacancy'', timeout_seconds = 15,
      user_agent = ascii ''hostel-notifier/1.0'', state_file = ''last_state.json'',
      single_run = False\<rparr>"

definition cfg_plain :: config where
  "cfg_plain = cfg_keyword\<lparr>use_keyword := False, keyword := []\<rparr>"

definition cfg_single :: config where
  "cfg_single = cfg_keyword\<lparr>single_run := True\<rparr>"

definition cfg_empty_keyword :: config where
  "cfg_empty_keyword = cfg_keyword\<lparr>keyword := []\<rparr>"

text \<open>Cycles in which the rendering raises and the plain HTTP request answers, and a
  cycle in which both raise.\<close>

definition w_vacancy :: world where
  "w_vacancy =
     \<lparr>js_result = None, http_result = Some ''New VACANCY posted'', email_delivered = True\<rparr>"

definition w_rooms :: world where
  "w_rooms =
     \<lparr>js_result = None, http_result = Some ''Rooms available'', email_delivered = False\<rparr>"

definition w_sold_out :: world where
  "w_sold_out =
     \<lparr>js_result = None, http_result = Some ''Rooms: SOLD OUT'', email_delivered = True\<rparr>"

definition w_down :: world where
  "w_down = \<lparr>js_result = None, http_result = None, email_delivered = True\<rparr>"

text \<open>A disk on which every write raises.\<close>

definition read_only :: disk where
  "read_only = \<lparr>snapshot_write_ok = False, state_write_ok = False\<rparr>"

text \<open>A state file left by an earlier run that had found its keyword on the page
  \<open>Rooms available\<close>.\<close>

definition fs_keyword_seen :: filesystem where
  "fs_keyword_seen =
     [''last_state.json'' \<mapsto>
        [''last_hash'' \<mapsto> JStr (sha256_hexdigest demo_lib ''Rooms available''),
         ''last_keyword_found'' \<mapsto> JBool True]]"


section \<open>Facts about strings\<close>

lemma starts_with_iff: "starts_with s sub = prefix sub s"
  by (induction s sub rule: starts_with.induct) auto

lemma str_contains_iff: "str_contains s sub = sublist sub s"
  by (induction s) (auto simp: starts_with_iff sublist_Cons_right)

lemma str_contains_empty: "str_contains s []"
  by (cases s) simp_all

lemma str_contains_mid: "str_contains s (a @ k @ b) \<Longrightarrow> str_contains s k"
  unfolding str_contains_iff
  by (meson sublist_appendI sublist_order.order_trans)

lemma lower_Nil: "lower L [] = []"
  by (simp add: lower_def)

lemma upper_Nil: "upper L [] = []"
  by (simp add: upper_def)

lemma capitalize_Nil: "capitalize L [] = []"
  by (simp add: capitalize_def)

text \<open>The loop stops at the first variation, the keyword itself, when that occurs.\<close>

lemma search_loop_first:
  "str_contains t (lower L kw) \<Longrightarrow> search_loop L t (search_variations L kw) = (True, kw)"
  by (simp add: search_variations_def)

text \<open>On ASCII texts the three case mappings are the ASCII ones.\<close>

lemma ascii_lower_idem: "ascii_lower (ascii_lower c) = ascii_lower c"
  by (simp add: ascii_lower_def)

lemma ascii_lower_upper_lower: "ascii_lower (ascii_upper (ascii_lower c)) = ascii_lower c"
  by (auto simp: ascii_lower_def ascii_upper_def)

lemma ascii_lower_less: "c < 128 \<Longrightarrow> ascii_lower c < 128"
  by (simp add: ascii_lower_def)

lemma ascii_upper_less: "c < 128 \<Longrightarrow> ascii_upper c < 128"
  by (auto simp: ascii_upper_def)

lemma ascii_only_map_lower: "ascii_only s \<Longrightarrow> ascii_only (map ascii_lower s)"
  by (simp add: ascii_only_def list_all_iff ascii_lower_less)

lemma ascii_only_map_upper: "ascii_only s \<Longrightarrow> ascii_only (map ascii_upper s)"
  by (simp add: ascii_only_def list_all_iff ascii_upper_less)

lemma concat_singletons_from:
  assumes "\<And>i. k \<le> i \<Longrightarrow> i < length s \<Longrightarrow> g i = [f (s ! i)]"
  shows "concat (map g [k..<length s]) = map f (drop k s)"
proof -
  have "concat (map g [k..<length s]) = concat (map (\<lambda>i. [f (s ! i)]) [k..<length s])"
    using assms by (intro arg_cong [where f = concat] map_cong) auto
  also have "\<dots> = map (\<lambda>i. f (s ! i)) [k..<length s]"
    by (rule concat_map_singleton)
  also have "\<dots> = map f (map (nth s) [k..<length s])"
    by (simp add: comp_def)
  also have "map (nth s) [k..<length s] = drop k s"
    by (metis add.commute drop_map drop_upt map_nth add_0)
  finally show ?thesis .
qed

lemma lower_ascii:
  assumes "ascii_cased L" and "ascii_only s"
  shows "lower L s = map ascii_lower s"
proof -
  have "lower_ucs4 L s i = [ascii_lower (s ! i)]" if "i < length s" for i
    using assms that by (simp add: ascii_cased_def ascii_only_def list_all_length)
  then have "concat (map (lower_ucs4 L s) [0..<length s]) = map ascii_lower (drop 0 s)"
    by (intro concat_singletons_from) auto
  then show ?thesis by (simp add: lower_def)
qed

lemma upper_ascii:
  assumes "ascii_cased L" and "ascii_only s"
  shows "upper L s = map ascii_upper s"
proof -
  have "concat (map (to_upper_full L) s) = concat (map (\<lambda>c. [ascii_upper c]) s)"
    using assms
    by (intro arg_cong [where f = concat] map_cong)
      (auto simp: ascii_cased_def ascii_only_def list_all_iff)
  also have "\<dots> = map ascii_upper s"
    by (rule concat_map_singleton)
  finally show ?thesis by (simp add: upper_def)
qed

lemma capitalize_ascii:
  assumes "ascii_cased L" and "ascii_only (c # cs)"
  shows "capitalize L (c # cs) = ascii_upper c # map ascii_lower cs"
proof -
  let ?s = "c # cs"
  have "lower_ucs4 L ?s i = [ascii_lower (?s ! i)]" if "i < length ?s" for i
    using assms that by (simp add: ascii_cased_def ascii_only_def list_all_length)
  then have "concat (map (lower_ucs4 L ?s) [1..<length ?s]) = map ascii_lower (drop 1 ?s)"
    by (intro concat_singletons_from) auto
  moreover have "to_title_full L c = [ascii_upper c]"
    using assms by (simp add: ascii_cased_def ascii_only_def)
  ultimately show ?thesis by (simp add: capitalize_def)
qed

lemma lower_capitalize_ascii:
  assumes "ascii_cased L" and "ascii_only k"
  shows "lower L (capitalize L (map ascii_lower k)) = map ascii_lower k"
proof (cases k)
  case Nil
  then show ?thesis by (simp add: capitalize_Nil lower_Nil)
next
  case (Cons c cs)
  from assms(2) have a: "ascii_only (map ascii_lower k)"
    by (rule ascii_only_map_lower)
  with Cons have c: "capitalize L (ascii_lower c # map ascii_lower cs)
      = ascii_upper (ascii_lower c) # map ascii_lower cs"
    using capitalize_ascii [OF assms(1), of "ascii_lower c" "map ascii_lower cs"]
    by (simp add: ascii_lower_idem)
  have "ascii_only (ascii_upper (ascii_lower c) # map ascii_lower cs)"
    using a Cons by (simp add: ascii_only_def ascii_upper_less)
  from lower_ascii [OF assms(1) this] show ?thesis
    using Cons by (simp add: c ascii_lower_idem ascii_lower_upper_lower)
qed

text \<open>For an ASCII keyword the loop over the seven variations finds one exactly when
  the first of them, the lowercased keyword itself, occurs.\<close>

lemma search_loop_found_ascii:
  assumes "ascii_cased L" and "ascii_only K"
  shows "fst (search_loop L t (search_variations L (lower L K))) = str_contains t (lower L K)"
proof -
  let ?k = "map ascii_lower K"
  have k: "lower L K = ?k" and ak: "ascii_only ?k"
    using assms by (simp_all add: lower_ascii ascii_only_map_lower)
  have l1: "lower L ?k = ?k"
    using lower_ascii [OF assms(1) ak] by (simp add: ascii_lower_idem)
  have l2: "lower L (upper L ?k) = ?k"
    using upper_ascii [OF assms(1) ak] lower_ascii [OF assms(1) ascii_only_map_upper [OF ak]]
    by (simp add: ascii_lower_upper_lower)
  have l3: "lower L (capitalize L ?k) = ?k"
    by (rule lower_capitalize_ascii [OF assms])
  have w: "lower L (ascii a @ ?k @ ascii b) = map ascii_lower (ascii a) @ ?k @ map ascii_lower (ascii b)"
    if "ascii_only (ascii a)" "ascii_only (ascii b)" for a b
  proof -
    have "ascii_only (ascii a @ ?k @ ascii b)"
      using that ak by (simp add: ascii_only_def)
    then show ?thesis
      using lower_ascii [OF assms(1)] by (simp add: ascii_lower_idem)
  qed
  show ?thesis
  proof (cases "str_contains t ?k")
    case True
    then show ?thesis by (simp add: k l1 search_variations_def)
  next
    case False
    then have no: "\<not> str_contains t (a @ ?k @ b)" for a b
      using str_contains_mid by blast
    have "\<not> str_contains t (lower L (ascii a @ ?k @ ascii b))"
      if "ascii_only (ascii a)" "ascii_only (ascii b)" for a b
      unfolding w [OF that] by (rule no)
    from this [of "'' ''" "'' ''"] this [of "''>''" "''<''"]
      this [of "[CHR 0x22]" "[CHR 0x22]"] this [of "[CHR 0x27]" "[CHR 0x27]"] False
    show ?thesis
      by (simp add: k l1 l2 l3 search_variations_def ascii_only_def)
  qed
qed

text \<open>The concrete library.\<close>

lemma ascii_cased_demo_lib: "ascii_cased demo_lib"
  by (simp add: ascii_cased_def demo_lib_def)

lemma lower_demo_lib: "lower demo_lib s = map ascii_lower s"
proof -
  have "concat (map (lower_ucs4 demo_lib s) [0..<length s]) = map ascii_lower (drop 0 s)"
    by (intro concat_singletons_from) (simp add: demo_lib_def)
  then show ?thesis by (simp add: lower_def)
qed

section \<open>Facts about one cycle\<close>

lemmas cycle_io_defs = cycle_io_def change_check_def keyword_check_def notify_def Let_def
  case_prod_beta

lemma cycle_io_no_fetch: "fetch_page L w = None \<Longrightarrow> cycle_io L cfg io w m = (m, None)"
  by (simp add: cycle_io_def)

text \<open>When the write of the initial snapshot raises, the handler ends the cycle: the
  variable and the dict have the digest, the file has not, and nothing is decided.\<close>

lemma cycle_io_snapshot_raises:
  "fetch_page L w = Some (t, h) \<Longrightarrow> last_hash m = JNull \<Longrightarrow> \<not> snapshot_write_ok io \<Longrightarrow>
   cycle_io L cfg io w m
     = (m\<lparr>last_hash := JStr h, state := (state m)(''last_hash'' \<mapsto> JStr h)\<rparr>, None)"
  by (simp add: cycle_io_defs del: list.map)

text \<open>When the cycle reaches its decision, this is what it decides and does.\<close>

lemma cycle_io_fetched:
  assumes "fetch_page L w = Some (t, h)" and "last_hash m \<noteq> JNull \<or> snapshot_write_ok io"
  shows "\<exists>m' d. cycle_io L cfg io w m = (m', Some d)
    \<and> content_changed d = (last_hash m \<noteq> JNull \<and> JStr h \<noteq> last_hash m)
    \<and> keyword_found d
        = (use_keyword cfg \<and> fst (search_loop L t (search_variations L (lower L (keyword cfg)))))
    \<and> changed d = (content_changed d \<or> keyword_found d)
    \<and> reasons d = (if content_changed d then [ascii ''Page content changed''] else [])
             @ (if keyword_found d then [keyword_reason (lower L (keyword cfg))] else [])
    \<and> samples d =
        (if content_changed d then [ascii ''Content preview: '' @ strip L (take 200 t)] else [])
        @ (if keyword_found d then
             [ascii ''Keyword context: '' @ keyword_sample L t
                (snd (search_loop L t (search_variations L (lower L (keyword cfg)))))]
           else [])
    \<and> email d = (if changed d then
                Some (ascii ''Hostel site update detected'',
                      build_message (url cfg) (join (ascii '' | '') (reasons d))
                        (join (ascii [CHR 0x0A, CHR 0x0A]) (samples d)))
              else None)
    \<and> sent d = (changed d \<and> email_delivered w)
    \<and> saved d = (changed d \<and> state_write_ok io)
    \<and> last_hash m' = JStr h
    \<and> last_keyword_found m' =
        (if use_keyword cfg
         then JBool (fst (search_loop L t (search_variations L (lower L (keyword cfg)))))
         else last_keyword_found m)
    \<and> state m' =
        (if changed d then
           (state m)(''last_hash'' \<mapsto> JStr h, ''last_keyword_found'' \<mapsto> last_keyword_found m')
         else if last_hash m = JNull then (state m)(''last_hash'' \<mapsto> JStr h)
         else state m)
    \<and> files m' =
        (if changed d \<and> state_write_ok io then (files m)(state_file cfg \<mapsto> state m')
         else if last_hash m = JNull
           then (files m)(state_file cfg \<mapsto> (state m)(''last_hash'' \<mapsto> JStr h))
         else files m)
    \<and> monitor.more m' = monitor.more m"
proof (cases "last_hash m = JNull")
  case True
  with assms show ?thesis
    by (cases "use_keyword cfg \<and> fst (search_loop L t (search_variations L (lower L (keyword cfg))))")
      (simp_all add: cycle_io_defs save_state_def del: list.map)
next
  case False
  with assms show ?thesis
    by (cases "use_keyword cfg \<and> fst (search_loop L t (search_variations L (lower L (keyword cfg))))";
        cases "JStr h = last_hash m")
      (simp_all add: cycle_io_defs save_state_def del: list.map)
qed

lemma cycle_io_is_Some:
  "fetch_page L w = Some (t, h) \<Longrightarrow> last_hash m \<noteq> JNull \<or> snapshot_write_ok io \<Longrightarrow>
   \<exists>m' d. cycle_io L cfg io w m = (m', Some d)"
  using cycle_io_fetched [of L w t h m io cfg] by blast

lemma cycle_io_reached:
  assumes "fetch_page L w = Some (t, h)" and "cycle_io L cfg io w m = (m', Some d)"
  shows "last_hash m \<noteq> JNull \<or> snapshot_write_ok io"
proof (rule ccontr)
  assume "\<not> (last_hash m \<noteq> JNull \<or> snapshot_write_ok io)"
  then have "last_hash m = JNull" "\<not> snapshot_write_ok io" by simp_all
  from cycle_io_snapshot_raises [OF assms(1) this] assms(2) show False by simp
qed

lemma cycle_io_fetched_rule:
  assumes f: "fetch_page L w = Some (t, h)" and c: "cycle_io L cfg io w m = (m', Some d)"
  shows "content_changed d = (last_hash m \<noteq> JNull \<and> JStr h \<noteq> last_hash m)
    \<and> keyword_found d
        = (use_keyword cfg \<and> fst (search_loop L t (search_variations L (lower L (keyword cfg)))))
    \<and> changed d = (content_changed d \<or> keyword_found d)
    \<and> reasons d = (if content_changed d then [ascii ''Page content changed''] else [])
             @ (if keyword_found d then [keyword_reason (lower L (keyword cfg))] else [])
    \<and> samples d =
        (if content_changed d then [ascii ''Content preview: '' @ strip L (take 200 t)] else [])
        @ (if keyword_found d then
             [ascii ''Keyword context: '' @ keyword_sample L t
                (snd (search_loop L t (search_variations L (lower L (keyword cfg)))))]
           else [])
    \<and> email d = (if changed d then
                Some (ascii ''Hostel site update detected'',
                      build_message (url cfg) (join (ascii '' | '') (reasons d))
                        (join (ascii [CHR 0x0A, CHR 0x0A]) (samples d)))
              else None)
    \<and> sent d = (changed d \<and> email_delivered w)
    \<and> saved d = (changed d \<and> state_write_ok io)
    \<and> last_hash m' = JStr h
    \<and> last_keyword_found m' =
        (if use_keyword cfg
         then JBool (fst (search_loop L t (search_variations L (lower L (keyword cfg)))))
         else last_keyword_found m)
    \<and> state m' =
        (if changed d then
           (state m)(''last_hash'' \<mapsto> JStr h, ''last_keyword_found'' \<mapsto> last_keyword_found m')
         else if last_hash m = JNull then (state m)(''last_hash'' \<mapsto> JStr h)
         else state m)
    \<and> files m' =
        (if changed d \<and> state_write_ok io then (files m)(state_file cfg \<mapsto> state m')
         else if last_hash m = JNull
           then (files m)(state_file cfg \<mapsto> (state m)(''last_hash'' \<mapsto> JStr h))
         else files m)
    \<and> monitor.more m' = monitor.more m"
proof -
  from cycle_io_fetched [OF f cycle_io_reached [OF f c], of cfg] c show ?thesis
    by (elim exE conjE) (simp del: list.map)
qed

lemma cycle_io_content_changed:
  "fetch_page L w = Some (t, h) \<Longrightarrow> cycle_io L cfg io w m = (m', Some d) \<Longrightarrow>
   content_changed d = (last_hash m \<noteq> JNull \<and> JStr h \<noteq> last_hash m)"
  by (drule (1) cycle_io_fetched_rule) (elim conjE)

lemma cycle_io_keyword_found:
  "fetch_page L w = Some (t, h) \<Longrightarrow> cycle_io L cfg io w m = (m', Some d) \<Longrightarrow>
   keyword_found d
     = (use_keyword cfg \<and> fst (search_loop L t (search_variations L (lower L (keyword cfg)))))"
  by (drule (1) cycle_io_fetched_rule) (elim conjE)

lemma cycle_io_changed:
  "fetch_page L w = Some (t, h) \<Longrightarrow> cycle_io L cfg io w m = (m', Some d) \<Longrightarrow>
   changed d = (content_changed d \<or> keyword_found d)"
  by (drule (1) cycle_io_fetched_rule) (elim conjE)

lemma cycle_io_reasons:
  "fetch_page L w = Some (t, h) \<Longrightarrow> cycle_io L cfg io w m = (m', Some d) \<Longrightarrow>
   reasons d = (if content_changed d then [ascii ''Page content changed''] else [])
             @ (if keyword_found d then [keyword_reason (lower L (keyword cfg))] else [])"
  by (drule (1) cycle_io_fetched_rule) (elim conjE)

lemma cycle_io_samples:
  "fetch_page L w = Some (t, h) \<Longrightarrow> cycle_io L cfg io w m = (m', Some d) \<Longrightarrow>
   samples d =
     (if content_changed d then [ascii ''Content preview: '' @ strip L (take 200 t)] else [])
     @ (if keyword_found d then
          [ascii ''Keyword context: '' @ keyword_sample L t
             (snd (search_loop L t (search_variations L (lower L (keyword cfg)))))]
        else [])"
  by (drule (1) cycle_io_fetched_rule) (elim conjE)

lemma cycle_io_email:
  "fetch_page L w = Some (t, h) \<Longrightarrow> cycle_io L cfg io w m = (m', Some d) \<Longrightarrow>
   email d = (if changed d then
                Some (ascii ''Hostel site update detected'',
                      build_message (url cfg) (join (ascii '' | '') (reasons d))
                        (join (ascii [CHR 0x0A, CHR 0x0A]) (samples d)))
              else None)
   \<and> sent d = (changed d \<and> email_delivered w)
   \<and> saved d = (changed d \<and> state_write_ok io)"
  by (drule (1) cycle_io_fetched_rule) (elim conjE, intro conjI)

lemma cycle_io_last_hash:
  "fetch_page L w = Some (t, h) \<Longrightarrow> cycle_io L cfg io w m = (m', Some d) \<Longrightarrow>
   last_hash m' = JStr h"
  by (drule (1) cycle_io_fetched_rule) (elim conjE)

lemma cycle_io_last_keyword_found:
  "fetch_page L w = Some (t, h) \<Longrightarrow> cycle_io L cfg io w m = (m', Some d) \<Longrightarrow>
   last_keyword_found m' =
     (if use_keyword cfg
      then JBool (fst (search_loop L t (search_variations L (lower L (keyword cfg)))))
      else last_keyword_found m)"
  by (drule (1) cycle_io_fetched_rule) (elim conjE)

lemma cycle_io_state:
  "fetch_page L w = Some (t, h) \<Longrightarrow> cycle_io L cfg io w m = (m', Some d) \<Longrightarrow>
   state m' =
     (if changed d then
        (state m)(''last_hash'' \<mapsto> JStr h, ''last_keyword_found'' \<mapsto> last_keyword_found m')
      else if last_hash m = JNull then (state m)(''last_hash'' \<mapsto> JStr h)
      else state m)"
  by (drule (1) cycle_io_fetched_rule) (elim conjE)

lemma cycle_io_files:
  "fetch_page L w = Some (t, h) \<Longrightarrow> cycle_io L cfg io w m = (m', Some d) \<Longrightarrow>
   files m' =
     (if changed d \<and> state_write_ok io then (files m)(state_file cfg \<mapsto> state m')
      else if last_hash m = JNull
        then (files m)(state_file cfg \<mapsto> (state m)(''last_hash'' \<mapsto> JStr h))
      else files m)"
  by (drule (1) cycle_io_fetched_rule) (elim conjE)

lemma cycle_io_more:
  "cycle_io L cfg io w m = (m', d) \<Longrightarrow> monitor.more m' = monitor.more m"
  by (auto simp: cycle_io_defs simp del: list.map split: if_splits option.splits)

text \<open>The same on a disk that takes every write.\<close>

lemma cycle_no_fetch: "fetch_page L w = None \<Longrightarrow> cycle L cfg w m = (m, None)"
  by (simp add: cycle_def cycle_io_no_fetch)

lemma cycle_is_Some:
  "fetch_page L w = Some (t, h) \<Longrightarrow> \<exists>m' d. cycle L cfg w m = (m', Some d)"
  unfolding cycle_def by (rule cycle_io_is_Some) (simp_all add: writable_def)

lemma cycle_content_changed:
  "fetch_page L w = Some (t, h) \<Longrightarrow> cycle L cfg w m = (m', Some d) \<Longrightarrow>
   content_changed d = (last_hash m \<noteq> JNull \<and> JStr h \<noteq> last_hash m)"
  unfolding cycle_def by (rule cycle_io_content_changed)

lemma cycle_keyword_found:
  "fetch_page L w = Some (t, h) \<Longrightarrow> cycle L cfg w m = (m', Some d) \<Longrightarrow>
   keyword_found d
     = (use_keyword cfg \<and> fst (search_loop L t (search_variations L (lower L (keyword cfg)))))"
  unfolding cycle_def by (rule cycle_io_keyword_found)

lemma cycle_changed:
  "fetch_page L w = Some (t, h) \<Longrightarrow> cycle L cfg w m = (m', Some d) \<Longrightarrow>
   changed d = (content_changed d \<or> keyword_found d)"
  unfolding cycle_def by (rule cycle_io_changed)

lemma cycle_reasons:
  "fetch_page L w = Some (t, h) \<Longrightarrow> cycle L cfg w m = (m', Some d) \<Longrightarrow>
   reasons d = (if content_changed d then [ascii ''Page content changed''] else [])
             @ (if keyword_found d then [keyword_reason (lower L (keyword cfg))] else [])"
  unfolding cycle_def by (rule cycle_io_reasons)

lemma cycle_samples:
  "fetch_page L w = Some (t, h) \<Longrightarrow> cycle L cfg w m = (m', Some d) \<Longrightarrow>
   samples d =
     (if content_changed d then [ascii ''Content preview: '' @ strip L (take 200 t)] else [])
     @ (if keyword_found d then
          [ascii ''Keyword context: '' @ keyword_sample L t
             (snd (search_loop L t (search_variations L (lower L (keyword cfg)))))]
        else [])"
  unfolding cycle_def by (rule cycle_io_samples)

lemma cycle_email:
  "fetch_page L w = Some (t, h) \<Longrightarrow> cycle L cfg w m = (m', Some d) \<Longrightarrow>
   email d = (if changed d then
                Some (ascii ''Hostel site update detected'',
                      build_message (url cfg) (join (ascii '' | '') (reasons d))
                        (join (ascii [CHR 0x0A, CHR 0x0A]) (samples d)))
              else None)
   \<and> sent d = (changed d \<and> email_delivered w)"
  unfolding cycle_def using cycle_io_email [of L w t h cfg writable m m' d] by simp

lemma cycle_last_hash:
  "fetch_page L w = Some (t, h) \<Longrightarrow> cycle L cfg w m = (m', Some d) \<Longrightarrow>
   last_hash m' = JStr h"
  unfolding cycle_def by (rule cycle_io_last_hash)

lemma cycle_last_keyword_found:
  "fetch_page L w = Some (t, h) \<Longrightarrow> cycle L cfg w m = (m', Some d) \<Longrightarrow>
   last_keyword_found m' =
     (if use_keyword cfg
      then JBool (fst (search_loop L t (search_variations L (lower L (keyword cfg)))))
      else last_keyword_found m)"
  unfolding cycle_def by (rule cycle_io_last_keyword_found)

lemma cycle_state:
  "fetch_page L w = Some (t, h) \<Longrightarrow> cycle L cfg w m = (m', Some d) \<Longrightarrow>
   state m' =
     (if changed d then
        (state m)(''last_hash'' \<mapsto> JStr h, ''last_keyword_found'' \<mapsto> last_keyword_found m')
      else if last_hash m = JNull then (state m)(''last_hash'' \<mapsto> JStr h)
      else state m)"
  unfolding cycle_def by (rule cycle_io_state)

lemma cycle_files:
  "fetch_page L w = Some (t, h) \<Longrightarrow> cycle L cfg w m = (m', Some d) \<Longrightarrow>
   files m' =
     (if changed d \<or> last_hash m = JNull then (files m)(state_file cfg \<mapsto> state m')
      else files m)"
  unfolding cycle_def
  using cycle_io_files [of L w t h cfg writable m m' d]
    cycle_io_state [of L w t h cfg writable m m' d]
  by (simp add: writable_def)

lemma cycle_more:
  "cycle L cfg w m = (m', d) \<Longrightarrow> monitor.more m' = monitor.more m"
  unfolding cycle_def by (rule cycle_io_more)

text \<open>The loop and \<open>main\<close> on a disk that takes every write, in terms of \<open>cycle\<close>.\<close>

lemma run_loop_Nil: "run_loop L cfg m [] = (Running, m, [])"
  by (simp add: run_loop_def)

lemma run_loop_Cons:
  "run_loop L cfg m (w # ws) =
     (let (m', d) = cycle L cfg w m in
        if single_run cfg then (Exited 0, m', [d])
        else (let (s, m'', ds) = run_loop L cfg m' ws in (s, m'', d # ds)))"
  unfolding run_loop_def cycle_def by simp

lemma main_None: "main L None fs ws = (Exited 1, fs, [])"
  by (simp add: main_def main_io_def)

lemma main_Some:
  "main L (Some cfg) fs ws =
     (let (s, m, ds) = run_loop L cfg (init_monitor cfg fs) ws in (s, files m, ds))"
  unfolding main_def main_io_def run_loop_def by simp

text \<open>The fetches of the concrete worlds.\<close>

lemma fetch_w_vacancy:
  "fetch_page demo_lib w_vacancy
     = Some (ascii ''new vacancy posted'', ascii ''New VACANCY posted'')"
  by (simp add: fetch_page_def http_attempt_def w_vacancy_def compute_hash_def lower_demo_lib)
    (simp add: demo_lib_def ascii_lower_def)

lemma fetch_w_rooms:
  "fetch_page demo_lib w_rooms = Some (ascii ''rooms available'', ascii ''Rooms available'')"
  by (simp add: fetch_page_def http_attempt_def w_rooms_def compute_hash_def lower_demo_lib)
    (simp add: demo_lib_def ascii_lower_def)

lemma fetch_w_sold_out:
  "fetch_page demo_lib w_sold_out = Some (ascii ''rooms: sold out'', ascii ''Rooms: SOLD OUT'')"
  by (simp add: fetch_page_def http_attempt_def w_sold_out_def compute_hash_def lower_demo_lib)
    (simp add: demo_lib_def ascii_lower_def)

lemma fetch_w_down: "fetch_page L w_down = None"
  by (simp add: fetch_page_def http_attempt_def w_down_def)

text \<open>Facts about the concrete inputs.\<close>

lemma init_empty_last_hash: "last_hash (init_monitor cfg Map.empty) = JNull"
  by (simp add: init_monitor_def load_state_def dict_get_def)

lemma init_empty_last_keyword_found:
  "last_keyword_found (init_monitor cfg Map.empty) = JBool False"
  by (simp add: init_monitor_def load_state_def dict_get_def)

lemma use_keyword_cfg_keyword: "use_keyword cfg_keyword"
  by (simp add: cfg_keyword_def)

lemma keyword_cfg_keyword: "lower demo_lib (keyword cfg_keyword) = ascii ''vacancy''"
  by (simp add: cfg_keyword_def lower_demo_lib ascii_lower_def)

lemma vacancy_occurs:
  "str_contains (ascii ''new vacancy posted'') (lower demo_lib (ascii ''vacancy''))"
  by (simp add: lower_demo_lib ascii_lower_def)

lemma vacancy_found:
  "search_loop demo_lib (ascii ''new vacancy posted'')
     (search_variations demo_lib (lower demo_lib (keyword cfg_keyword)))
   = (True, ascii ''vacancy'')"
  unfolding keyword_cfg_keyword by (rule search_loop_first [OF vacancy_occurs])

lemma vacancy_not_found:
  "\<not> fst (search_loop demo_lib (ascii ''rooms available'')
          (search_variations demo_lib (lower demo_lib (keyword cfg_keyword))))"
proof -
  have "ascii_only (keyword cfg_keyword)"
    by (simp add: ascii_only_def cfg_keyword_def)
  from search_loop_found_ascii [OF ascii_cased_demo_lib this]
  show ?thesis by (simp add: keyword_cfg_keyword)
qed

lemma init_seen_last_hash:
  "last_hash (init_monitor cfg_keyword fs_keyword_seen) = JStr (ascii ''Rooms available'')"
  by (simp add: init_monitor_def Let_def load_state_def dict_get_def fs_keyword_seen_def
      cfg_keyword_def demo_lib_def)

lemma init_seen_last_keyword_found:
  "last_keyword_found (init_monitor cfg_keyword fs_keyword_seen) = JBool True"
  by (simp add: init_monitor_def Let_def load_state_def dict_get_def fs_keyword_seen_def
      cfg_keyword_def)

lemma init_files: "files (init_monitor cfg fs) = fs"
  by (simp add: init_monitor_def Let_def)


lemma upper_eszett: "upper demo_lib [223] = ascii ''SS''"
  by (simp add: upper_def demo_lib_def)

section \<open>Facts about the loop\<close>

lemma cycle_result_cases:
  assumes "cycle L cfg w m = (m', d)"
  obtains (failed) "fetch_page L w = None" "m' = m" "d = None"
        | (fetched) t h e where "fetch_page L w = Some (t, h)" "d = Some e"
proof (cases "fetch_page L w")
  case None
  with assms cycle_no_fetch [OF None, of cfg m] show ?thesis
    by (auto intro: failed)
next
  case (Some p)
  obtain t h where p: "p = (t, h)" by (cases p)
  with Some have f: "fetch_page L w = Some (t, h)" by simp
  from cycle_is_Some [OF f, of cfg m] assms obtain e where "d = Some e" by auto
  with f show ?thesis by (rule fetched)
qed

lemma cycle_last_hash_null:
  assumes "cycle L cfg w m = (m', d)"
  shows "(last_hash m' = JNull) = (last_hash m = JNull \<and> d = None)"
  using assms
proof (cases rule: cycle_result_cases)
  case failed
  then show ?thesis by simp
next
  case (fetched t h e)
  with assms cycle_last_hash [of L w t h cfg m m' e] show ?thesis by simp
qed

lemma cycle_last_hash_step:
  assumes "cycle L cfg w m = (m', d)"
  shows "last_hash m' = last_hash m
       \<or> (\<exists>t h. fetch_page L w = Some (t, h) \<and> last_hash m' = JStr h
             \<and> JStr h \<noteq> last_hash m)"
  using assms
proof (cases rule: cycle_result_cases)
  case failed
  then show ?thesis by simp
next
  case (fetched t h e)
  with assms cycle_last_hash [of L w t h cfg m m' e] have "last_hash m' = JStr h" by simp
  with fetched(1) show ?thesis by (cases "JStr h = last_hash m") auto
qed

lemma cycle_in_sync:
  assumes "cycle L cfg w m = (m', d)"
    and "load_state (files m) (state_file cfg) = state m"
    and "dict_get (state m) ''last_hash'' JNull = last_hash m"
  shows "load_state (files m') (state_file cfg) = state m'
       \<and> dict_get (state m') ''last_hash'' JNull = last_hash m'"
  using assms(1)
proof (cases rule: cycle_result_cases)
  case failed
  with assms show ?thesis by simp
next
  case (fetched t h e)
  with assms(1) have c: "cycle L cfg w m = (m', Some e)" by simp
  note f = fetched(1)
  have lh: "last_hash m' = JStr h" by (rule cycle_last_hash [OF f c])
  show ?thesis
  proof (cases "changed e \<or> last_hash m = JNull")
    case True
    then show ?thesis
      using cycle_state [OF f c] cycle_files [OF f c] lh
      by (auto simp: load_state_def dict_get_def)
  next
    case False
    then have "\<not> content_changed e"
      using cycle_changed [OF f c] by simp
    with False have "JStr h = last_hash m"
      using cycle_content_changed [OF f c] by simp
    with False show ?thesis
      using cycle_state [OF f c] cycle_files [OF f c] lh assms(2,3) by simp
  qed
qed

lemma init_in_sync:
  "load_state (files (init_monitor cfg fs)) (state_file cfg) = state (init_monitor cfg fs)
   \<and> dict_get (state (init_monitor cfg fs)) ''last_hash'' JNull
       = last_hash (init_monitor cfg fs)"
  by (simp add: init_monitor_def Let_def)

lemma run_loop_in_sync:
  "run_loop L cfg m0 ws = (s, m, ds) \<Longrightarrow>
   load_state (files m0) (state_file cfg) = state m0 \<Longrightarrow>
   dict_get (state m0) ''last_hash'' JNull = last_hash m0 \<Longrightarrow>
   load_state (files m) (state_file cfg) = state m
   \<and> dict_get (state m) ''last_hash'' JNull = last_hash m"
proof (induction ws arbitrary: m0 s m ds)
  case Nil
  then show ?case by (simp add: run_loop_Nil)
next
  case (Cons w ws)
  obtain m1 d where c: "cycle L cfg w m0 = (m1, d)" by (cases "cycle L cfg w m0")
  from cycle_in_sync [OF c Cons.prems(2,3)]
  have s1: "load_state (files m1) (state_file cfg) = state m1"
    and s2: "dict_get (state m1) ''last_hash'' JNull = last_hash m1" by simp_all
  show ?case
  proof (cases "single_run cfg")
    case True
    with Cons.prems(1) c have "m = m1" by (simp add: run_loop_Cons)
    with s1 s2 show ?thesis by simp
  next
    case False
    obtain s' m'' ds' where r: "run_loop L cfg m1 ws = (s', m'', ds')"
      by (cases "run_loop L cfg m1 ws")
    with Cons.prems(1) c False have "m = m''" by (simp add: run_loop_Cons)
    with Cons.IH [OF r s1 s2] show ?thesis by simp
  qed
qed

lemma run_loop_last_hash_null:
  "run_loop L cfg m0 ws = (s, m, ds) \<Longrightarrow>
   (last_hash m = JNull) = (last_hash m0 = JNull \<and> list_all (\<lambda>d. d = None) ds)"
proof (induction ws arbitrary: m0 s m ds)
  case Nil
  then show ?case by (auto simp: run_loop_Nil)
next
  case (Cons w ws)
  obtain m1 d where c: "cycle L cfg w m0 = (m1, d)" by (cases "cycle L cfg w m0")
  note n = cycle_last_hash_null [OF c]
  show ?case
  proof (cases "single_run cfg")
    case True
    with Cons.prems c have "m = m1" "ds = [d]" by (simp_all add: run_loop_Cons)
    with n show ?thesis by simp
  next
    case False
    obtain s' m'' ds' where r: "run_loop L cfg m1 ws = (s', m'', ds')"
      by (cases "run_loop L cfg m1 ws")
    with Cons.prems c False have "m = m''" "ds = d # ds'" by (simp_all add: run_loop_Cons)
    with Cons.IH [OF r] n show ?thesis by auto
  qed
qed

lemma not_single_run_cfg_plain: "\<not> single_run cfg_plain"
  by (simp add: cfg_plain_def cfg_keyword_def)

section \<open>The claims\<close>

text \<open>
  C3 (keyword-search degeneracy), as stated: for every keyword and every page text the
  search over the seven variations reports found exactly when a single case-insensitive
  substring search for the keyword does. It fails for a keyword whose upper case does
  not lowercase back to it: the keyword U+00DF has the upper case \<open>SS\<close>, so the second
  variation matches the page \<open>Hotel Strasse 12\<close>, in which the keyword does not occur.
\<close>

theorem keyword_search_counterexample:
  "fst (search_loop demo_lib (lower demo_lib (ascii ''Hotel Strasse 12''))
          (search_variations demo_lib (lower demo_lib [223])))
   \<and> \<not> case_insensitive_search demo_lib [223] (ascii ''Hotel Strasse 12'')"
proof -
  have a: "\<not> sublist [223] (ascii ''hotel strasse 12'')"
    unfolding str_contains_iff [symmetric] by simp
  have b: "str_contains (ascii ''hotel strasse 12'') (ascii ''ss'')"
    by simp
  have "search_loop demo_lib (ascii ''hotel strasse 12'') (search_variations demo_lib [223])
         = (True, ascii ''SS'')"
    using a b
    by (simp add: search_variations_def upper_eszett lower_demo_lib ascii_lower_def
        str_contains_iff)
  then show ?thesis
    using a by (simp add: case_insensitive_search_def lower_demo_lib ascii_lower_def)
qed

text \<open>
  C3, amended. For every keyword of ASCII characters and every page text, the ordered
  search over the seven surface variations (exact, uppercase, capitalized, space-padded,
  \<open>>K<\<close>, double-quoted, single-quoted), each lowercased before the substring test with
  the first match winning, reports found exactly when the single case-insensitive
  substring search for the keyword in the text does.
\<close>

theorem keyword_search_ascii:
  assumes "ascii_cased L" and "ascii_only K"
  shows "fst (search_loop L (lower L page_text) (search_variations L (lower L K)))
           = case_insensitive_search L K page_text"
  using search_loop_found_ascii [OF assms]
  by (simp add: case_insensitive_search_def str_contains_iff)

theorem keyword_search_ascii_witness:
  "ascii_cased demo_lib \<and> ascii_only (ascii ''Vacancy'')
   \<and> fst (search_loop demo_lib (lower demo_lib (ascii ''New VACANCY posted''))
            (search_variations demo_lib (lower demo_lib (ascii ''Vacancy''))))
   \<and> case_insensitive_search demo_lib (ascii ''Vacancy'') (ascii ''New VACANCY posted'')"
proof -
  have k: "ascii_only (ascii ''Vacancy'')"
    by (simp add: ascii_only_def)
  have "case_insensitive_search demo_lib (ascii ''Vacancy'') (ascii ''New VACANCY posted'')"
    unfolding case_insensitive_search_def str_contains_iff [symmetric]
    by (simp add: lower_demo_lib ascii_lower_def)
  with keyword_search_ascii [OF ascii_cased_demo_lib k, of "ascii ''New VACANCY posted''"]
    ascii_cased_demo_lib k
  show ?thesis by simp
qed

text \<open>
  C8 (state-file round trip). Writing a state with \<open>save_state\<close> and reading the same
  path with \<open>load_state\<close> gives the state back, whatever the file held before; so the
  \<open>last_hash\<close> and \<open>last_keyword_found\<close> that \<open>main\<close> reads from it are the ones written.
\<close>

theorem state_file_roundtrip:
  "load_state (save_state fs path st) path = st"
  by (simp add: load_state_def save_state_def)

text \<open>
  C7 (fetch-error atomicity). When both the rendered fetch and the plain HTTP fetch
  raise, the cycle changes none of the variables of \<open>main\<close>, the state dict or the
  disk and reports nothing; in continuous mode the loop goes on with the next cycle, in
  single-run mode the loop ends and \<open>main\<close> exits with code 0.
\<close>

theorem fetch_error_atomicity:
  assumes "js_result w = None" and "http_result w = None"
  shows "cycle L cfg w m = (m, None)
       \<and> run_loop L cfg m (w # ws) =
           (if single_run cfg then (Exited 0, m, [None])
            else (case run_loop L cfg m ws of (s, m', ds) \<Rightarrow> (s, m', None # ds)))
       \<and> (single_run cfg \<longrightarrow> main L (Some cfg) fs (w # ws) = (Exited 0, fs, [None]))"
proof -
  from assms have nf: "fetch_page L w = None"
    by (simp add: fetch_page_def http_attempt_def)
  have c: "cycle L cfg w m = (m, None)" for m
    using nf by (rule cycle_no_fetch)
  have "files (init_monitor cfg fs) = fs"
    by (simp add: init_monitor_def Let_def)
  then show ?thesis
    by (simp add: c main_Some run_loop_Cons)
qed

theorem fetch_error_atomicity_witness:
  "js_result w_down = None \<and> http_result w_down = None
   \<and> cycle demo_lib cfg_keyword w_down (init_monitor cfg_keyword fs_keyword_seen)
       = (init_monitor cfg_keyword fs_keyword_seen, None)
   \<and> single_run cfg_single
   \<and> main demo_lib (Some cfg_single) fs_keyword_seen [w_down]
       = (Exited 0, fs_keyword_seen, [None])"
proof -
  have h: "js_result w_down = None" "http_result w_down = None"
    by (simp_all add: w_down_def)
  have s: "single_run cfg_single"
    by (simp add: cfg_single_def cfg_keyword_def)
  from fetch_error_atomicity [OF h, of demo_lib cfg_keyword "init_monitor cfg_keyword fs_keyword_seen"]
    fetch_error_atomicity [OF h, of demo_lib cfg_single _ "[]" fs_keyword_seen] h s
  show ?thesis by simp
qed

text \<open>
  C4 (first-run suppression). When \<open>last_hash\<close> is \<open>None\<close> and the page is fetched, the
  cycle does not set \<open>content_changed\<close>, the only reason and sample it can emit are the
  keyword's, it notifies only if the keyword was found, and the digest of the page
  becomes \<open>last_hash\<close>, in memory and in the state file.
\<close>

theorem first_run_suppression:
  assumes "last_hash m = JNull" and "fetch_page L w = Some (t, h)"
  shows "\<exists>m' d. cycle L cfg w m = (m', Some d)
       \<and> \<not> content_changed d
       \<and> reasons d = (if keyword_found d then [keyword_reason (lower L (keyword cfg))] else [])
       \<and> samples d =
           (if keyword_found d then
              [ascii ''Keyword context: '' @ keyword_sample L t
                 (snd (search_loop L t (search_variations L (lower L (keyword cfg)))))]
            else [])
       \<and> changed d = keyword_found d
       \<and> last_hash m' = JStr h
       \<and> dict_get (load_state (files m') (state_file cfg)) ''last_hash'' JNull = JStr h"
proof -
  from assms(2) obtain m' d where c: "cycle L cfg w m = (m', Some d)"
    using cycle_is_Some by blast
  note f = assms(2)
  have cc: "\<not> content_changed d"
    using cycle_content_changed [OF f c] assms(1) by simp
  have "state m' ''last_hash'' = Some (JStr h)"
    using cycle_state [OF f c] assms(1) by simp
  moreover have "files m' (state_file cfg) = Some (state m')"
    using cycle_files [OF f c] assms(1) by simp
  ultimately have "dict_get (load_state (files m') (state_file cfg)) ''last_hash'' JNull = JStr h"
    by (simp add: dict_get_def load_state_def)
  with c cc cycle_reasons [OF f c] cycle_samples [OF f c] cycle_changed [OF f c]
    cycle_last_hash [OF f c]
  show ?thesis by (simp del: list.map)
qed

theorem first_run_suppression_witness:
  "last_hash (init_monitor cfg_plain Map.empty) = JNull
   \<and> fetch_page demo_lib w_rooms = Some (ascii ''rooms available'', ascii ''Rooms available'')
   \<and> (\<exists>m' d. cycle demo_lib cfg_plain w_rooms (init_monitor cfg_plain Map.empty) = (m', Some d)
       \<and> \<not> content_changed d \<and> last_hash m' = JStr (ascii ''Rooms available''))"
proof -
  have h1: "last_hash (init_monitor cfg_plain Map.empty) = JNull"
    by (rule init_empty_last_hash)
  from first_run_suppression [OF h1 fetch_w_rooms, of cfg_plain] h1 fetch_w_rooms
  show ?thesis by blast
qed

text \<open>
  C10 (first-run keyword notification), as stated: on the first observation (\<open>last_hash\<close>
  is \<open>None\<close> and the page is fetched), with keyword matching enabled and the keyword in
  the page, the cycle sends a notification with the keyword reason. It fails when the
  write of the initial snapshot raises: \<open>save_state\<close> is called before the keyword check,
  inside the \<open>try\<close>, so the handler ends the cycle with the digest in the variable, no
  keyword check and no email.
\<close>

theorem first_run_keyword_counterexample:
  "last_hash (init_monitor cfg_keyword Map.empty) = JNull \<and> use_keyword cfg_keyword
   \<and> fetch_page demo_lib w_vacancy
       = Some (ascii ''new vacancy posted'', ascii ''New VACANCY posted'')
   \<and> str_contains (ascii ''new vacancy posted'')
       (lower demo_lib (lower demo_lib (keyword cfg_keyword)))
   \<and> snd (cycle_io demo_lib cfg_keyword read_only w_vacancy
             (init_monitor cfg_keyword Map.empty)) = None
   \<and> last_hash (fst (cycle_io demo_lib cfg_keyword read_only w_vacancy
                        (init_monitor cfg_keyword Map.empty)))
       = JStr (ascii ''New VACANCY posted'')
   \<and> files (fst (cycle_io demo_lib cfg_keyword read_only w_vacancy
                    (init_monitor cfg_keyword Map.empty))) = Map.empty"
proof -
  have h1: "last_hash (init_monitor cfg_keyword Map.empty) = JNull"
    by (rule init_empty_last_hash)
  have h5: "str_contains (ascii ''new vacancy posted'')
       (lower demo_lib (lower demo_lib (keyword cfg_keyword)))"
    unfolding keyword_cfg_keyword by (rule vacancy_occurs)
  have "\<not> snapshot_write_ok read_only"
    by (simp add: read_only_def)
  from cycle_io_snapshot_raises [OF fetch_w_vacancy h1 this, of cfg_keyword]
    h1 use_keyword_cfg_keyword fetch_w_vacancy h5
  show ?thesis by (simp add: init_files del: list.map)
qed

text \<open>
  C10, amended. On the first observation (\<open>last_hash\<close> is \<open>None\<close> and the page is
  fetched), with keyword matching enabled and the keyword in the page, the cycle
  notifies provided the write of the initial snapshot does not raise: it sends the
  message whose only reason is \<open>Keyword '<keyword>' found on page\<close>, so the first-run
  suppression covers the content-change reason only. When that write raises, the cycle
  decides and sends nothing. (The keyword is in the page when the test of the first
  variation succeeds: the lowercased keyword, lowercased once more by the loop, is a
  part of the lowercased text.)
\<close>

theorem first_run_keyword_notification:
  assumes "last_hash m = JNull" and "use_keyword cfg"
    and "fetch_page L w = Some (t, h)"
    and "str_contains t (lower L (lower L (keyword cfg)))"
  shows "(snapshot_write_ok io \<longrightarrow>
          (\<exists>m' d. cycle_io L cfg io w m = (m', Some d)
             \<and> \<not> content_changed d \<and> keyword_found d \<and> changed d
             \<and> reasons d =
                 [ascii ''Keyword '' @ ascii [CHR 0x27] @ lower L (keyword cfg)
                  @ ascii [CHR 0x27] @ ascii '' found on page'']
             \<and> email d =
                 Some (ascii ''Hostel site update detected'',
                       ascii ''Hostel site update'' @ ascii [CHR 0x0A]
                       @ ascii ''URL: '' @ url cfg @ ascii [CHR 0x0A]
                       @ ascii ''Reason: Keyword '' @ ascii [CHR 0x27] @ lower L (keyword cfg)
                       @ ascii [CHR 0x27] @ ascii '' found on page'' @ ascii [CHR 0x0A]
                       @ ascii ''Sample: Keyword context: ''
                       @ keyword_sample L t (lower L (keyword cfg)))
             \<and> sent d = email_delivered w))
       \<and> (\<not> snapshot_write_ok io \<longrightarrow> snd (cycle_io L cfg io w m) = None)"
proof (intro conjI impI)
  assume "\<not> snapshot_write_ok io"
  from cycle_io_snapshot_raises [OF assms(3) assms(1) this, of cfg]
  show "snd (cycle_io L cfg io w m) = None" by simp
next
  assume ok: "snapshot_write_ok io"
  note f = assms(3)
  let ?kw = "lower L (keyword cfg)"
  from cycle_io_is_Some [OF f, of m io cfg] ok
  obtain m' d where c: "cycle_io L cfg io w m = (m', Some d)" by blast
  have s: "search_loop L t (search_variations L ?kw) = (True, ?kw)"
    by (rule search_loop_first [OF assms(4)])
  have cc: "\<not> content_changed d"
    using cycle_io_content_changed [OF f c] assms(1) by simp
  have kf: "keyword_found d"
    using cycle_io_keyword_found [OF f c] assms(2) s by simp
  have ch: "changed d"
    using cycle_io_changed [OF f c] kf by simp
  have rs: "reasons d = [keyword_reason ?kw]"
    using cycle_io_reasons [OF f c] cc kf by simp
  have ss: "samples d = [ascii ''Keyword context: '' @ keyword_sample L t ?kw]"
    using cycle_io_samples [OF f c] cc kf s by simp
  have em: "email d = Some (ascii ''Hostel site update detected'',
      build_message (url cfg) (keyword_reason ?kw)
        (ascii ''Keyword context: '' @ keyword_sample L t ?kw))"
    and se: "sent d = email_delivered w"
    using cycle_io_email [OF f c] ch by (simp_all add: rs ss del: list.map)
  have "build_message (url cfg) (keyword_reason ?kw)
          (ascii ''Keyword context: '' @ keyword_sample L t ?kw)
        = ascii ''Hostel site update'' @ ascii [CHR 0x0A]
                 @ ascii ''URL: '' @ url cfg @ ascii [CHR 0x0A]
                 @ ascii ''Reason: Keyword '' @ ascii [CHR 0x27] @ ?kw
                 @ ascii [CHR 0x27] @ ascii '' found on page'' @ ascii [CHR 0x0A]
                 @ ascii ''Sample: Keyword context: ''
                 @ keyword_sample L t ?kw"
    by (simp add: build_message_def keyword_reason_def)
  with em have em': "email d =
           Some (ascii ''Hostel site update detected'',
                 ascii ''Hostel site update'' @ ascii [CHR 0x0A]
                 @ ascii ''URL: '' @ url cfg @ ascii [CHR 0x0A]
                 @ ascii ''Reason: Keyword '' @ ascii [CHR 0x27] @ ?kw
                 @ ascii [CHR 0x27] @ ascii '' found on page'' @ ascii [CHR 0x0A]
                 @ ascii ''Sample: Keyword context: ''
                 @ keyword_sample L t ?kw)"
    by (simp only:)
  have rs': "reasons d =
           [ascii ''Keyword '' @ ascii [CHR 0x27] @ ?kw @ ascii [CHR 0x27]
            @ ascii '' found on page'']"
    using rs by (simp only: keyword_reason_def)
  from c cc kf ch rs' em' se
  show "\<exists>m' d. cycle_io L cfg io w m = (m', Some d)
             \<and> \<not> content_changed d \<and> keyword_found d \<and> changed d
             \<and> reasons d =
                 [ascii ''Keyword '' @ ascii [CHR 0x27] @ lower L (keyword cfg)
                  @ ascii [CHR 0x27] @ ascii '' found on page'']
             \<and> email d =
                 Some (ascii ''Hostel site update detected'',
                       ascii ''Hostel site update'' @ ascii [CHR 0x0A]
                       @ ascii ''URL: '' @ url cfg @ ascii [CHR 0x0A]
                       @ ascii ''Reason: Keyword '' @ ascii [CHR 0x27] @ lower L (keyword cfg)
                       @ ascii [CHR 0x27] @ ascii '' found on page'' @ ascii [CHR 0x0A]
                       @ ascii ''Sample: Keyword context: ''
                       @ keyword_sample L t (lower L (keyword cfg)))
             \<and> sent d = email_delivered w"
    by blast
qed

theorem first_run_keyword_notification_witness:
  "last_hash (init_monitor cfg_keyword Map.empty) = JNull \<and> use_keyword cfg_keyword
   \<and> fetch_page demo_lib w_vacancy
       = Some (ascii ''new vacancy posted'', ascii ''New VACANCY posted'')
   \<and> str_contains (ascii ''new vacancy posted'')
       (lower demo_lib (lower demo_lib (keyword cfg_keyword)))
   \<and> snapshot_write_ok writable
   \<and> (\<exists>m' d. cycle_io demo_lib cfg_keyword writable w_vacancy
                 (init_monitor cfg_keyword Map.empty) = (m', Some d)
         \<and> changed d
         \<and> reasons d = [ascii ''Keyword 'vacancy' found on page'']
         \<and> map_option fst (email d) = Some (ascii ''Hostel site update detected'')
         \<and> sent d)
   \<and> \<not> snapshot_write_ok read_only
   \<and> snd (cycle_io demo_lib cfg_keyword read_only w_vacancy
             (init_monitor cfg_keyword Map.empty)) = None"
proof -
  have h1: "last_hash (init_monitor cfg_keyword Map.empty) = JNull"
    by (rule init_empty_last_hash)
  have h4: "snapshot_write_ok writable" and h4': "\<not> snapshot_write_ok read_only"
    by (simp_all add: writable_def read_only_def)
  have h5: "str_contains (ascii ''new vacancy posted'')
       (lower demo_lib (lower demo_lib (keyword cfg_keyword)))"
    unfolding keyword_cfg_keyword by (rule vacancy_occurs)
  have e: "email_delivered w_vacancy"
    by (simp add: w_vacancy_def)
  note t = first_run_keyword_notification [OF h1 use_keyword_cfg_keyword fetch_w_vacancy h5]
  note t1 = t [of writable, THEN conjunct1, THEN mp, OF h4]
  from t1 obtain m' d b where
    r: "cycle_io demo_lib cfg_keyword writable w_vacancy (init_monitor cfg_keyword Map.empty)
          = (m', Some d)" "changed d"
       "reasons d =
           [ascii ''Keyword '' @ ascii [CHR 0x27] @ lower demo_lib (keyword cfg_keyword)
            @ ascii [CHR 0x27] @ ascii '' found on page'']"
       "sent d = email_delivered w_vacancy"
    and r4': "email d = Some (ascii ''Hostel site update detected'', b)"
    by blast
  from r4' have r4: "map_option fst (email d) = Some (ascii ''Hostel site update detected'')"
    by (simp del: list.map)
  from r(3) have r3: "reasons d = [ascii ''Keyword 'vacancy' found on page'']"
    by (simp add: keyword_cfg_keyword)
  from t [of read_only] h4'
  have n: "snd (cycle_io demo_lib cfg_keyword read_only w_vacancy
             (init_monitor cfg_keyword Map.empty)) = None"
    by blast
  from r(4) e have r5: "sent d" by simp
  from r(1,2) r3 r4 r5 n h1 use_keyword_cfg_keyword fetch_w_vacancy h4 h4' h5
  show ?thesis by blast
qed

text \<open>
  C9 (empty keyword). With keyword matching enabled and the empty keyword, the search
  matches at its first variation on every page, nothing guards against it, and the cycle
  notifies with the keyword reason.
\<close>

theorem empty_keyword_always_found:
  assumes "use_keyword cfg" and "keyword cfg = []" and "fetch_page L w = Some (t, h)"
  shows "search_loop L t (search_variations L (lower L (keyword cfg))) = (True, [])
       \<and> (\<exists>m' d. cycle L cfg w m = (m', Some d) \<and> keyword_found d \<and> changed d
             \<and> keyword_reason [] \<in> set (reasons d)
             \<and> last_keyword_found m' = JBool True)"
proof -
  note f = assms(3)
  have l: "lower L (keyword cfg) = []"
    using assms(2) by (simp add: lower_Nil)
  have s: "search_loop L t (search_variations L (lower L (keyword cfg))) = (True, [])"
    unfolding l by (rule search_loop_first) (simp add: lower_Nil str_contains_empty)
  from f obtain m' d where c: "cycle L cfg w m = (m', Some d)"
    using cycle_is_Some by blast
  have kf: "keyword_found d"
    using cycle_keyword_found [OF f c] assms(1) s by simp
  have ch: "changed d"
    using cycle_changed [OF f c] kf by simp
  have rs: "keyword_reason [] \<in> set (reasons d)"
    using cycle_reasons [OF f c] kf by (simp add: l)
  have lk: "last_keyword_found m' = JBool True"
    using cycle_last_keyword_found [OF f c] assms(1) s by simp
  from s c kf ch rs lk show ?thesis by blast
qed

theorem empty_keyword_always_found_witness:
  "use_keyword cfg_empty_keyword \<and> keyword cfg_empty_keyword = []
   \<and> fetch_page demo_lib w_rooms = Some (ascii ''rooms available'', ascii ''Rooms available'')
   \<and> (\<exists>m' d. cycle demo_lib cfg_empty_keyword w_rooms
                 (init_monitor cfg_empty_keyword Map.empty) = (m', Some d)
         \<and> keyword_found d \<and> changed d \<and> last_keyword_found m' = JBool True)"
proof -
  have h1: "use_keyword cfg_empty_keyword" and h2: "keyword cfg_empty_keyword = []"
    by (simp_all add: cfg_empty_keyword_def cfg_keyword_def)
  from empty_keyword_always_found [OF h1 h2 fetch_w_rooms] h1 h2 fetch_w_rooms
  show ?thesis by blast
qed

text \<open>
  C5 (keyword one-directional trigger). With keyword matching enabled, a cycle whose
  keyword search goes from not found to found notifies, and the reason
  \<open>Keyword '<keyword>' found on page\<close> is the last of its reasons; a cycle whose search
  goes from found to not found adds no keyword reason and no keyword sample and notifies
  only if the content changed, and \<open>last_keyword_found\<close> becomes \<open>False\<close> all the same.
  (The cycle is one that reaches its keyword search: the page is fetched, and on the
  first run the initial snapshot is written.)
\<close>

theorem keyword_one_directional_trigger:
  assumes "use_keyword cfg" and "fetch_page L w = Some (t, h)"
    and "last_hash m \<noteq> JNull \<or> snapshot_write_ok io"
  shows "\<exists>m' d. cycle_io L cfg io w m = (m', Some d)
       \<and> (last_keyword_found m = JBool False
            \<and> fst (search_loop L t (search_variations L (lower L (keyword cfg)))) \<longrightarrow>
            keyword_found d \<and> changed d
            \<and> reasons d =
                (if content_changed d then [ascii ''Page content changed''] else [])
                @ [ascii ''Keyword '' @ ascii [CHR 0x27] @ lower L (keyword cfg)
                   @ ascii [CHR 0x27] @ ascii '' found on page'']
            \<and> last_keyword_found m' = JBool True)
       \<and> (last_keyword_found m = JBool True
            \<and> \<not> fst (search_loop L t (search_variations L (lower L (keyword cfg)))) \<longrightarrow>
            \<not> keyword_found d \<and> changed d = content_changed d
            \<and> reasons d = (if content_changed d then [ascii ''Page content changed''] else [])
            \<and> samples d =
                (if content_changed d
                 then [ascii ''Content preview: '' @ strip L (take 200 t)] else [])
            \<and> last_keyword_found m' = JBool False)"
proof -
  note f = assms(2)
  let ?found = "fst (search_loop L t (search_variations L (lower L (keyword cfg))))"
  from cycle_io_is_Some [OF f assms(3), of cfg]
  obtain m' d where c: "cycle_io L cfg io w m = (m', Some d)" by blast
  have kf: "keyword_found d = ?found"
    using cycle_io_keyword_found [OF f c] assms(1) by simp
  have lk: "last_keyword_found m' = JBool ?found"
    using cycle_io_last_keyword_found [OF f c] assms(1) by simp
  have up: "?found \<longrightarrow>
            keyword_found d \<and> changed d
            \<and> reasons d =
                (if content_changed d then [ascii ''Page content changed''] else [])
                @ [ascii ''Keyword '' @ ascii [CHR 0x27] @ lower L (keyword cfg)
                   @ ascii [CHR 0x27] @ ascii '' found on page'']
            \<and> last_keyword_found m' = JBool True"
    using cycle_io_changed [OF f c] cycle_io_reasons [OF f c] kf lk
    by (simp add: keyword_reason_def del: list.map)
  have down: "\<not> ?found \<longrightarrow>
            \<not> keyword_found d \<and> changed d = content_changed d
            \<and> reasons d = (if content_changed d then [ascii ''Page content changed''] else [])
            \<and> samples d =
                (if content_changed d
                 then [ascii ''Content preview: '' @ strip L (take 200 t)] else [])
            \<and> last_keyword_found m' = JBool False"
    using cycle_io_changed [OF f c] cycle_io_reasons [OF f c] cycle_io_samples [OF f c] kf lk
    by (simp del: list.map)
  from c up down show ?thesis by blast
qed

theorem keyword_one_directional_trigger_witness:
  "use_keyword cfg_keyword
   \<and> fetch_page demo_lib w_vacancy
       = Some (ascii ''new vacancy posted'', ascii ''New VACANCY posted'')
   \<and> snapshot_write_ok writable
   \<and> last_keyword_found (init_monitor cfg_keyword Map.empty) = JBool False
   \<and> fst (search_loop demo_lib (ascii ''new vacancy posted'')
            (search_variations demo_lib (lower demo_lib (keyword cfg_keyword))))
   \<and> (\<exists>m' d. cycle_io demo_lib cfg_keyword writable w_vacancy
                 (init_monitor cfg_keyword Map.empty) = (m', Some d)
         \<and> changed d \<and> reasons d = [ascii ''Keyword 'vacancy' found on page'']
         \<and> last_keyword_found m' = JBool True)
   \<and> fetch_page demo_lib w_rooms = Some (ascii ''rooms available'', ascii ''Rooms available'')
   \<and> last_keyword_found (init_monitor cfg_keyword fs_keyword_seen) = JBool True
   \<and> \<not> fst (search_loop demo_lib (ascii ''rooms available'')
              (search_variations demo_lib (lower demo_lib (keyword cfg_keyword))))
   \<and> (\<exists>m' d. cycle_io demo_lib cfg_keyword writable w_rooms
                 (init_monitor cfg_keyword fs_keyword_seen) = (m', Some d)
         \<and> \<not> keyword_found d \<and> \<not> changed d \<and> reasons d = []
         \<and> last_keyword_found m' = JBool False)"
proof -
  have io: "snapshot_write_ok writable"
    by (simp add: writable_def)
  have a: "fst (search_loop demo_lib (ascii ''new vacancy posted'')
            (search_variations demo_lib (lower demo_lib (keyword cfg_keyword))))"
    by (simp only: vacancy_found fst_conv)
  note b = vacancy_not_found
  have r1: "last_hash (init_monitor cfg_keyword Map.empty) \<noteq> JNull \<or> snapshot_write_ok writable"
    and r2: "last_hash (init_monitor cfg_keyword fs_keyword_seen) \<noteq> JNull
              \<or> snapshot_write_ok writable"
    using io by simp_all
  from keyword_one_directional_trigger [OF use_keyword_cfg_keyword fetch_w_vacancy r1] a
    init_empty_last_keyword_found [of cfg_keyword]
  obtain m1 d1 where
    v: "cycle_io demo_lib cfg_keyword writable w_vacancy (init_monitor cfg_keyword Map.empty)
          = (m1, Some d1)" "changed d1" "last_keyword_found m1 = JBool True"
       "reasons d1 =
          (if content_changed d1 then [ascii ''Page content changed''] else [])
          @ [ascii ''Keyword '' @ ascii [CHR 0x27] @ lower demo_lib (keyword cfg_keyword)
             @ ascii [CHR 0x27] @ ascii '' found on page'']"
    by (elim exE conjE) (simp del: list.map)
  have "\<not> content_changed d1"
    using cycle_io_content_changed [OF fetch_w_vacancy v(1)]
    by (simp add: init_empty_last_hash)
  with v(4) have v4: "reasons d1 = [ascii ''Keyword 'vacancy' found on page'']"
    by (simp add: keyword_cfg_keyword)
  from keyword_one_directional_trigger [OF use_keyword_cfg_keyword fetch_w_rooms r2] b
    init_seen_last_keyword_found
  obtain m2 d2 where
    r: "cycle_io demo_lib cfg_keyword writable w_rooms (init_monitor cfg_keyword fs_keyword_seen)
          = (m2, Some d2)" "\<not> keyword_found d2" "changed d2 = content_changed d2"
       "reasons d2 = (if content_changed d2 then [ascii ''Page content changed''] else [])"
       "last_keyword_found m2 = JBool False"
    by (elim exE conjE) (simp del: list.map)
  have n: "\<not> content_changed d2"
    using cycle_io_content_changed [OF fetch_w_rooms r(1)]
    by (simp add: init_seen_last_hash)
  with r(3,4) have r34: "\<not> changed d2" "reasons d2 = []" by simp_all
  from v(1,2,3) v4 r(1,2,5) r34 use_keyword_cfg_keyword fetch_w_vacancy fetch_w_rooms io a b
    init_empty_last_keyword_found [of cfg_keyword] init_seen_last_keyword_found
  show ?thesis by blast
qed







text \<open>
  C6 (fingerprint monotonicity). In every state the loop reaches from the start of
  \<open>main\<close>, \<open>last_hash\<close> is \<open>None\<close> exactly when the state file held no digest and no cycle
  so far has fetched the page, and the state file holds the same digest as the variable;
  once set, \<open>last_hash\<close> is never \<open>None\<close> again, and a cycle changes it only to the digest
  of the page it fetched, when that digest differs from the one it had.
\<close>

theorem fingerprint_monotonicity:
  assumes "run_loop L cfg (init_monitor cfg fs) ws = (s, m, ds)"
    and "cycle L cfg w m = (m', d)"
  shows "(last_hash m = JNull)
           = (dict_get (load_state fs (state_file cfg)) ''last_hash'' JNull = JNull
              \<and> list_all (\<lambda>d. d = None) ds)
       \<and> dict_get (load_state (files m) (state_file cfg)) ''last_hash'' JNull = last_hash m
       \<and> (last_hash m \<noteq> JNull \<longrightarrow>
            last_hash m' \<noteq> JNull
            \<and> (last_hash m' = last_hash m
               \<or> (\<exists>t h. fetch_page L w = Some (t, h) \<and> last_hash m' = JStr h
                     \<and> JStr h \<noteq> last_hash m)))"
proof -
  have i: "last_hash (init_monitor cfg fs)
             = dict_get (load_state fs (state_file cfg)) ''last_hash'' JNull"
    by (simp add: init_monitor_def Let_def)
  have a: "(last_hash m = JNull)
           = (dict_get (load_state fs (state_file cfg)) ''last_hash'' JNull = JNull
              \<and> list_all (\<lambda>d. d = None) ds)"
    using run_loop_last_hash_null [OF assms(1)] i by simp
  have b: "dict_get (load_state (files m) (state_file cfg)) ''last_hash'' JNull = last_hash m"
    using run_loop_in_sync [OF assms(1)] init_in_sync [of cfg fs] by simp
  have c: "last_hash m \<noteq> JNull \<longrightarrow> last_hash m' \<noteq> JNull"
    using cycle_last_hash_null [OF assms(2)] by simp
  from a b c cycle_last_hash_step [OF assms(2)] show ?thesis by blast
qed

theorem fingerprint_monotonicity_witness:
  "\<exists>s m ds m' d.
     run_loop demo_lib cfg_plain (init_monitor cfg_plain Map.empty) [w_down, w_rooms]
       = (s, m, ds)
     \<and> cycle demo_lib cfg_plain w_sold_out m = (m', d)
     \<and> last_hash m = JStr (ascii ''Rooms available'')
     \<and> dict_get (load_state (files m) (state_file cfg_plain)) ''last_hash'' JNull = last_hash m
     \<and> last_hash m' = JStr (ascii ''Rooms: SOLD OUT'')"
proof -
  let ?m0 = "init_monitor cfg_plain Map.empty"
  have c0: "cycle demo_lib cfg_plain w_down ?m0 = (?m0, None)"
    by (rule cycle_no_fetch [OF fetch_w_down])
  obtain m1 d1 where c1: "cycle demo_lib cfg_plain w_rooms ?m0 = (m1, Some d1)"
    using cycle_is_Some [OF fetch_w_rooms] by blast
  have r: "run_loop demo_lib cfg_plain ?m0 [w_down, w_rooms] = (Running, m1, [None, Some d1])"
    by (simp add: run_loop_Cons run_loop_Nil c0 c1 not_single_run_cfg_plain)
  obtain m2 d2 where c2: "cycle demo_lib cfg_plain w_sold_out m1 = (m2, Some d2)"
    using cycle_is_Some [OF fetch_w_sold_out] by blast
  have l1: "last_hash m1 = JStr (ascii ''Rooms available'')"
    by (rule cycle_last_hash [OF fetch_w_rooms c1])
  have l2: "last_hash m2 = JStr (ascii ''Rooms: SOLD OUT'')"
    by (rule cycle_last_hash [OF fetch_w_sold_out c2])
  from fingerprint_monotonicity [OF r c2] r c2 l1 l2 show ?thesis by blast
qed

end
